theory Spec2Isabelle
  imports Main "HOL-Library.AList"
begin

section \<open>Data model of ito.py\<close>

text \<open>
  The game keeps one JSON document, a dict from room code to game dict.  A game dict is a
  record here, its \<open>status\<close> string one of three constructors.  Round numbers start at 1
  and are only ever incremented or reset to 1, so they are naturals; card values are
  Python ints.  The key \<open>str(current_round)\<close> of \<open>cards_per_round\<close> and \<open>results\<close> is
  the round number itself (\<open>str\<close> is injective on naturals).

  A hand mapping (\<open>player_cards\<close> in \<open>distribute_cards\<close>) is a Python dict whose
  iteration order is used (\<open>cards.values()\<close>), so it is an association list in insertion
  order: assigning an existing key replaces the value in place, assigning a new key
  appends, which is \<open>AList.update\<close>.
\<close>

datatype status = Waiting | Playing | Finished

type_synonym hands = "(string \<times> int list) list"

record round_result =
  played_order :: "int list"
  correct_order :: "int list"
  is_correct :: bool
  timestamp :: string

record game =
  room_code :: string
  players :: "string list"
  current_round :: nat
  max_rounds :: nat
  cards_per_round :: "nat \<rightharpoonup> hands"
  results :: "nat \<rightharpoonup> round_result"
  created_at :: string
  status :: status

text \<open>\<open>st.session_state.card_reveal\<close>: the reveal state of one browser session.\<close>

record card_reveal =
  rv_round :: nat
  rv_correct_order :: "int list"
  rv_played_order :: "int list"
  current_card :: nat
  rv_is_correct :: bool

type_synonym store = "string \<rightharpoonup> game"

text \<open>Python exceptions that the code can raise, and the three \<open>st.error\<close> messages.\<close>

datatype exn = KeyError | IndexError | ValueError

datatype message = Not_enough_cards | Wrong_count | Only_numbers

definition create_new_game :: "string \<Rightarrow> string list \<Rightarrow> nat \<Rightarrow> string \<Rightarrow> game" where
  "create_new_game code names rounds now =
     \<lparr>room_code = code, players = names, current_round = 1, max_rounds = rounds,
      cards_per_round = Map.empty, results = Map.empty, created_at = now,
      status = Waiting\<rparr>"

section \<open>Card distribution\<close>

text \<open>
  \<open>random.sample(all_cards, cards_needed)\<close> is the entropy source; the model takes it
  as a parameter.  What \<open>random.sample\<close> guarantees on a population without repeats is
  \<open>is_sample\<close>: the requested number of values, all different, all from the population.
  \<open>take_sample\<close> is one such sampler (the first \<open>k\<close> values).
\<close>

type_synonym sampler = "int list \<Rightarrow> nat \<Rightarrow> int list"

definition is_sample :: "int list \<Rightarrow> nat \<Rightarrow> int list \<Rightarrow> bool" where
  "is_sample population k xs \<longleftrightarrow>
     length xs = k \<and> distinct xs \<and> set xs \<subseteq> set population"

definition take_sample :: sampler where
  "take_sample population k = take k population"

text \<open>The slice \<open>xs[a:b]\<close> for \<open>0 \<le> a\<close> and \<open>0 \<le> b\<close>.\<close>

definition slice :: "'a list \<Rightarrow> nat \<Rightarrow> nat \<Rightarrow> 'a list" where
  "slice xs a b = take (b - a) (drop a xs)"

text \<open>
  The loop \<open>for i, player in enumerate(players)\<close>, with \<open>i\<close> the running index and
  \<open>pc\<close> the dict \<open>player_cards\<close> built so far.
\<close>

fun deal :: "int list \<Rightarrow> nat \<Rightarrow> nat \<Rightarrow> string list \<Rightarrow> hands \<Rightarrow> hands" where
  "deal selected_cards round_num i [] pc = pc"
| "deal selected_cards round_num i (player # rest) pc =
     deal selected_cards round_num (Suc i) rest
       (AList.update player (slice selected_cards (i * round_num) ((i + 1) * round_num)) pc)"

text \<open>
  \<open>distribute_cards\<close>: \<open>Inl Not_enough_cards\<close> is the branch that calls \<open>st.error\<close> and
  returns \<open>None\<close>.
\<close>

definition distribute_cards ::
  "sampler \<Rightarrow> string list \<Rightarrow> nat \<Rightarrow> int \<times> int \<Rightarrow> message + hands" where
  "distribute_cards sample names round_num card_range =
     (let num_players = length names;
          cards_needed = num_players * round_num
      in if int cards_needed > snd card_range - fst card_range + 1
         then Inl Not_enough_cards
         else
           let all_cards = [fst card_range .. snd card_range];
               selected_cards = sample all_cards cards_needed
           in Inr (deal selected_cards round_num 0 names []))"

definition default_range :: "int \<times> int" where
  "default_range = (1, 100)"

section \<open>Order resolution\<close>

text \<open>
  The loop of the verify form: \<open>player_selections\<close> is the whole submission, the third
  argument what is left of it, \<open>played\<close> the list \<open>played_order\<close> so far.
  \<open>round_cards[player]\<close> raises \<open>KeyError\<close> on a missing key and the index into the sorted
  hand raises \<open>IndexError\<close> when it is past the end (it is never negative).
\<close>

fun resolve_loop :: "hands \<Rightarrow> string list \<Rightarrow> string list \<Rightarrow> int list \<Rightarrow> exn + int list" where
  "resolve_loop round_cards player_selections [] played = Inr played"
| "resolve_loop round_cards player_selections (player # rest) played =
     (case map_of round_cards player of
        None \<Rightarrow> Inl KeyError
      | Some h \<Rightarrow>
          let player_cards = sort h;
              k = length (filter (\<lambda>p. p = player) (take (length played) player_selections))
          in if k < length player_cards
             then resolve_loop round_cards player_selections rest (played @ [player_cards ! k])
             else Inl IndexError)"

definition resolve :: "hands \<Rightarrow> string list \<Rightarrow> exn + int list" where
  "resolve round_cards player_selections =
     resolve_loop round_cards player_selections player_selections []"

text \<open>\<open>all_cards\<close> of the verification: the hands of \<open>cards.values()\<close> one after the other.\<close>

definition all_cards_of :: "hands \<Rightarrow> int list" where
  "all_cards_of cards = concat (map snd cards)"

text \<open>
  The selection-to-card rule in the words of the specification: position \<open>i\<close> gets the
  card at index \<open>k\<close> of the named player's ascending hand, \<open>k\<close> the number of earlier
  positions naming the same player.
\<close>

definition spec_card :: "hands \<Rightarrow> string list \<Rightarrow> nat \<Rightarrow> int" where
  "spec_card round_cards selections i =
     (let player = selections ! i;
          k = count_list (take i selections) player
      in sort (the (map_of round_cards player)) ! k)"

text \<open>
  The submission of the round-trip property: walk the correct order and name, for each
  value, the player whose hand contains it.
\<close>

definition holder :: "hands \<Rightarrow> int \<Rightarrow> string" where
  "holder cards v = fst (hd (filter (\<lambda>ph. v \<in> set (snd ph)) cards))"

definition walk_selections :: "hands \<Rightarrow> string list" where
  "walk_selections cards = map (holder cards) (sort (all_cards_of cards))"

section \<open>The administrator's view\<close>

text \<open>
  One run of \<open>show_admin_view\<close> handles at most one widget event.  What a run leaves
  behind is an \<open>outcome\<close>: the dict given to \<open>save_games\<close> when it was called, the
  session's \<open>card_reveal\<close> afterwards, and the \<open>st.error\<close> messages shown.  An exception
  that leaves the function is \<open>Inl\<close>.
\<close>

record outcome =
  saved :: "store option"
  session :: "card_reveal option"
  shown :: "message list"

datatype event =
    No_event
  | Distribute_clicked
  | Verify_submitted "string list"
  | Reveal_clicked
  | Continue_clicked
  | Restart_clicked

definition idle :: "card_reveal option \<Rightarrow> outcome" where
  "idle sess = \<lparr>saved = None, session = sess, shown = []\<rparr>"

text \<open>
  The button that distributes cards (status waiting).  \<open>if cards:\<close> is false for
  \<open>None\<close> and for the empty dict.
\<close>

definition distribute_clicked ::
  "sampler \<Rightarrow> string \<Rightarrow> game \<Rightarrow> store \<Rightarrow> card_reveal option \<Rightarrow> outcome" where
  "distribute_clicked sample code g games sess =
     (let cr = current_round g
      in case distribute_cards sample (players g) cr default_range of
           Inl m \<Rightarrow> \<lparr>saved = None, session = sess, shown = [m]\<rparr>
         | Inr cards \<Rightarrow>
             if cards \<noteq> []
             then let g' = g\<lparr>cards_per_round := (cards_per_round g)(cr \<mapsto> cards),
                             status := Playing\<rparr>
                  in \<lparr>saved = Some (games(code \<mapsto> g')), session = sess, shown = []\<rparr>
             else idle sess)"

text \<open>The reveal state that a verification stores in a session that has none.\<close>

definition new_reveal :: "nat \<Rightarrow> int list \<Rightarrow> int list \<Rightarrow> bool \<Rightarrow> card_reveal" where
  "new_reveal cr correct played ok =
     \<lparr>rv_round = cr, rv_correct_order = correct, rv_played_order = played,
      current_card = 0, rv_is_correct = ok\<rparr>"

text \<open>
  The body of \<open>try\<close> up to the end of the loop: the lookup of the round's hands and
  the resolution.  Both can raise.
\<close>

definition try_resolve :: "game \<Rightarrow> string list \<Rightarrow> exn + (hands \<times> int list)" where
  "try_resolve g player_selections =
     (case cards_per_round g (current_round g) of
        None \<Rightarrow> Inl KeyError
      | Some round_cards \<Rightarrow>
          (case resolve round_cards player_selections of
             Inl e \<Rightarrow> Inl e
           | Inr played \<Rightarrow> Inr (round_cards, played)))"

text \<open>
  The submitted verify form (status playing).  Only \<open>ValueError\<close> is caught by the
  \<open>except\<close> clause; any other exception leaves the function.
\<close>

definition verify_submitted ::
  "string \<Rightarrow> string list \<Rightarrow> string \<Rightarrow> game \<Rightarrow> store \<Rightarrow> card_reveal option \<Rightarrow> exn + outcome" where
  "verify_submitted now player_selections code g games sess =
     (let cr = current_round g;
          total_cards = length (players g) * cr
      in case try_resolve g player_selections of
           Inl e \<Rightarrow>
             if e = ValueError
             then Inr \<lparr>saved = None, session = sess, shown = [Only_numbers]\<rparr>
             else Inl e
         | Inr (cards, played) \<Rightarrow>
             if length played \<noteq> total_cards
             then Inr \<lparr>saved = None, session = sess, shown = [Wrong_count]\<rparr>
             else
               let correct = sort (all_cards_of cards);
                   ok = (played = correct);
                   g' = g\<lparr>results := (results g)(cr \<mapsto>
                          \<lparr>played_order = played, correct_order = correct,
                           is_correct = ok, timestamp = now\<rparr>)\<rparr>;
                   sess' = (case sess of
                              None \<Rightarrow> Some (new_reveal cr correct played ok)
                            | Some rv \<Rightarrow> Some rv)
               in Inr \<lparr>saved = Some (games(code \<mapsto> g')), session = sess', shown = []\<rparr>)"

subsection \<open>Reveal\<close>

definition reveal_available :: "card_reveal \<Rightarrow> bool" where
  "reveal_available rv \<longleftrightarrow> current_card rv < length (rv_correct_order rv)"

definition continue_available :: "card_reveal \<Rightarrow> bool" where
  "continue_available rv \<longleftrightarrow> \<not> current_card rv < length (rv_correct_order rv)"

definition reveal_next :: "card_reveal \<Rightarrow> card_reveal" where
  "reveal_next rv = rv\<lparr>current_card := current_card rv + 1\<rparr>"

text \<open>
  One coloured panel: the card of the correct order at position \<open>i\<close> and whether it is
  marked correct.  \<open>played_card\<close> is \<open>None\<close> past the end of the played order.
\<close>

definition panel :: "card_reveal \<Rightarrow> nat \<Rightarrow> int \<times> bool" where
  "panel rv i =
     (let card = rv_correct_order rv ! i;
          played_card = (if i < length (rv_played_order rv)
                         then Some (rv_played_order rv ! i) else None)
      in (card, played_card = Some card))"

text \<open>The panels of the cards already revealed, \<open>for i in range(current_card)\<close>.\<close>

definition revealed_panels :: "card_reveal \<Rightarrow> (int \<times> bool) list" where
  "revealed_panels rv = map (panel rv) [0 ..< current_card rv]"

text \<open>Pressing the reveal button \<open>n\<close> times; \<open>None\<close> when the button is not there.\<close>

fun reveal_times :: "nat \<Rightarrow> card_reveal \<Rightarrow> card_reveal option" where
  "reveal_times 0 rv = Some rv"
| "reveal_times (Suc n) rv =
     (if reveal_available rv then reveal_times n (reveal_next rv) else None)"

subsection \<open>Round advancement and restart\<close>

text \<open>
  The assignment blocks of the continue and restart buttons, as functions on the
  game dict: \<open>if current_round < game['max_rounds']: ... else: ...\<close> and the four
  assignments of the restart.
\<close>

definition advance_or_finish :: "game \<Rightarrow> game" where
  "advance_or_finish g =
     (if current_round g < max_rounds g
      then g\<lparr>current_round := current_round g + 1, status := Waiting\<rparr>
      else g\<lparr>status := Finished\<rparr>)"

definition restart :: "game \<Rightarrow> game" where
  "restart g = g\<lparr>current_round := 1, status := Waiting,
                  cards_per_round := Map.empty, results := Map.empty\<rparr>"

text \<open>
  Both buttons delete \<open>card_reveal\<close> from the session, change the game, store it under
  the room code and save.
\<close>

definition continue_clicked :: "string \<Rightarrow> game \<Rightarrow> store \<Rightarrow> outcome" where
  "continue_clicked code g games =
     \<lparr>saved = Some (games(code \<mapsto> advance_or_finish g)), session = None, shown = []\<rparr>"

definition restart_clicked :: "string \<Rightarrow> game \<Rightarrow> store \<Rightarrow> outcome" where
  "restart_clicked code g games =
     \<lparr>saved = Some (games(code \<mapsto> restart g)), session = None, shown = []\<rparr>"

subsection \<open>Dispatch\<close>

text \<open>
  A widget only fires in a run that reaches it: the distribute button under status
  waiting, the form under status playing, the reveal button while cards are left to
  reveal, the continue button once none is left, the restart button always.
\<close>

definition show_admin_view ::
  "sampler \<Rightarrow> string \<Rightarrow> event \<Rightarrow> string \<Rightarrow> game \<Rightarrow> store \<Rightarrow> card_reveal option \<Rightarrow> exn + outcome" where
  "show_admin_view sample now ev code g games sess =
     (case ev of
        No_event \<Rightarrow> Inr (idle sess)
      | Distribute_clicked \<Rightarrow>
          if status g = Waiting then Inr (distribute_clicked sample code g games sess)
          else Inr (idle sess)
      | Verify_submitted player_selections \<Rightarrow>
          if status g = Playing then verify_submitted now player_selections code g games sess
          else Inr (idle sess)
      | Reveal_clicked \<Rightarrow>
          (case sess of
             None \<Rightarrow> Inr (idle sess)
           | Some rv \<Rightarrow>
               if status g = Playing \<and> current_card rv < length (rv_correct_order rv)
               then Inr \<lparr>saved = None, session = Some (reveal_next rv), shown = []\<rparr>
               else Inr (idle sess))
      | Continue_clicked \<Rightarrow>
          (case sess of
             None \<Rightarrow> Inr (idle sess)
           | Some rv \<Rightarrow>
               if status g = Playing \<and> \<not> current_card rv < length (rv_correct_order rv)
               then Inr (continue_clicked code g games)
               else Inr (idle sess))
      | Restart_clicked \<Rightarrow> Inr (restart_clicked code g games))"

section \<open>Requests\<close>

text \<open>
  The content of the file \<open>games_state.json\<close> and the session state of every browser
  session (a session is a natural number, and each has its own \<open>st.session_state\<close>).
  \<open>main_request\<close> is \<open>main\<close> for a request with the query parameter \<open>room\<close> and no
  \<open>player\<close>: it loads the file, and if the room code is not empty and is a key of the
  file it runs the administrator's view on that game with the requesting session's state;
  otherwise the run only shows the menu.  An exception ends the run with nothing written.
\<close>

record world =
  disk :: store
  sessions :: "nat \<Rightarrow> card_reveal option"

definition main_request ::
  "sampler \<Rightarrow> string \<Rightarrow> nat \<Rightarrow> string \<Rightarrow> event \<Rightarrow> world \<Rightarrow> world" where
  "main_request sample now sid code ev w =
     (let games = disk w
      in if code = [] then w
         else
           case games code of
             None \<Rightarrow> w
           | Some g \<Rightarrow>
               (case show_admin_view sample now ev code g games (sessions w sid) of
                  Inl e \<Rightarrow> w
                | Inr out \<Rightarrow>
                    \<lparr>disk = (case saved out of None \<Rightarrow> disk w | Some gs \<Rightarrow> gs),
                     sessions = (sessions w)(sid := session out)\<rparr>))"

text \<open>
  The states of room \<open>code\<close> that requests of the sessions in \<open>S\<close> can reach from its
  creation with at least one round (the form's minimum).
\<close>

inductive reachable :: "nat set \<Rightarrow> string \<Rightarrow> world \<Rightarrow> bool" for S :: "nat set" and code :: string where
  created:
    "1 \<le> rounds \<Longrightarrow> disk w code = Some (create_new_game code names rounds now) \<Longrightarrow>
     sessions w = (\<lambda>sid. None) \<Longrightarrow> reachable S code w"
| request:
    "reachable S code w \<Longrightarrow> sid \<in> S \<Longrightarrow>
     reachable S code (main_request sample now sid code ev w)"

section \<open>Example rooms\<close>

text \<open>Two rooms as the create form makes them, used to run the model on concrete input.\<close>

definition two_players :: game where
  "two_players = create_new_game ''ROOM01'' [''A'', ''B''] 1 ''t0''"

definition example_store :: store where
  "example_store =
     [''ROOM01'' \<mapsto> two_players,
      ''ROOM02'' \<mapsto> create_new_game ''ROOM02'' [''C'', ''D'', ''E''] 3 ''t1'']"

definition example_world :: world where
  "example_world = \<lparr>disk = example_store, sessions = (\<lambda>sid. None)\<rparr>"

text \<open>A game dict whose round number asks for more cards than the pool has.\<close>

definition fifty_first_round :: game where
  "fifty_first_round = two_players\<lparr>current_round := 51\<rparr>"

section \<open>Traces\<close>

text \<open>
  A list of requests to one room, each by a session, run in order with one sampler and
  one clock reading.
\<close>

fun run :: "sampler \<Rightarrow> string \<Rightarrow> string \<Rightarrow> (nat \<times> event) list \<Rightarrow> world \<Rightarrow> world" where
  "run sample now code [] w = w"
| "run sample now code ((sid, ev) # rest) w =
     run sample now code rest (main_request sample now sid code ev w)"

text \<open>
  One session: distribute round 1, submit the order B, A, reveal one card.  Then the same
  session submits A, B.
\<close>

definition resubmit_before :: world where
  "resubmit_before =
     run take_sample ''t2'' ''ROOM01''
       [(0, Distribute_clicked), (0, Verify_submitted [''B'', ''A'']), (0, Reveal_clicked)]
       example_world"

definition resubmit_trace :: world where
  "resubmit_trace =
     main_request take_sample ''t3'' 0 ''ROOM01'' (Verify_submitted [''A'', ''B''])
       resubmit_before"

text \<open>
  Two sessions on the one-round room: session 1 distributes, submits and reveals both
  cards; session 0 restarts the game; session 1 distributes again and, its reveal state
  still complete, continues.
\<close>

definition two_sessions_trace :: world where
  "two_sessions_trace =
     run take_sample ''t2'' ''ROOM01''
       [(1, Distribute_clicked), (1, Verify_submitted [''A'', ''B'']),
        (1, Reveal_clicked), (1, Reveal_clicked),
        (0, Restart_clicked),
        (1, Distribute_clicked), (1, Continue_clicked)]
       example_world"

text \<open>
  A game in round 1 with a recorded result, and a reveal state of that round with one
  card revealed.
\<close>

definition verified_once :: game where
  "verified_once =
     two_players\<lparr>cards_per_round := [1 \<mapsto> [(''A'', [10]), (''B'', [20])]],
                  results := [1 \<mapsto> \<lparr>played_order = [20, 10], correct_order = [10, 20],
                                       is_correct = False, timestamp = ''t1''\<rparr>],
                  status := Playing\<rparr>"

definition stale_reveal :: card_reveal where
  "stale_reveal =
     \<lparr>rv_round = 1, rv_correct_order = [10, 20], rv_played_order = [20, 10],
      current_card = 1, rv_is_correct = False\<rparr>"

text \<open>
  One session plays the one-round room to the end: distribute, submit A, B, reveal both
  cards, continue.
\<close>

definition one_session_trace :: world where
  "one_session_trace =
     run take_sample ''t2'' ''ROOM01''
       [(0, Distribute_clicked), (0, Verify_submitted [''A'', ''B'']),
        (0, Reveal_clicked), (0, Reveal_clicked), (0, Continue_clicked)]
       example_world"

text \<open>A game in round 2 whose hands interleave: A holds 30 and 10, B holds 20 and 40.\<close>

definition round_two :: game where
  "round_two =
     (create_new_game ''ROOM01'' [''A'', ''B''] 2 ''t0'')
       \<lparr>current_round := 2,
        cards_per_round := [2 \<mapsto> [(''A'', [30, 10]), (''B'', [20, 40])]],
        status := Playing\<rparr>"

section \<open>Invariants of a room\<close>

text \<open>The round number stays within 1 and \<open>max_rounds\<close>, and a finished game is in its last round.\<close>

definition rounds_ok :: "game \<Rightarrow> bool" where
  "rounds_ok g \<longleftrightarrow>
     1 \<le> current_round g \<and> current_round g \<le> max_rounds g
     \<and> (status g = Finished \<longrightarrow> current_round g = max_rounds g)"

text \<open>
  A session's reveal state belongs to a verified current round of a game in play, and a
  finished game has a result for its round.
\<close>

definition result_backed :: "game \<Rightarrow> card_reveal option \<Rightarrow> bool" where
  "result_backed g sess \<longleftrightarrow>
     (sess \<noteq> None \<longrightarrow> status g = Playing \<and> results g (current_round g) \<noteq> None)
     \<and> (status g = Finished \<longrightarrow> results g (current_round g) \<noteq> None)"

section \<open>Order resolution: position by position\<close>

lemma count_take_less:
  assumes "i < length xs"
  shows "length (filter (\<lambda>p. p = xs ! i) (take i xs)) < length (filter (\<lambda>p. p = xs ! i) xs)"
proof -
  have "xs = take i xs @ xs ! i # drop (Suc i) xs"
    using assms by (simp add: id_take_nth_drop)
  then have "filter (\<lambda>p. p = xs ! i) xs =
      filter (\<lambda>p. p = xs ! i) (take i xs) @ xs ! i # filter (\<lambda>p. p = xs ! i) (drop (Suc i) xs)"
    by (metis (mono_tags, lifting) filter.simps(2) filter_append)
  then show ?thesis by simp
qed

lemma count_list_filter: "count_list xs x = length (filter (\<lambda>p. p = x) xs)"
  by (induction xs) auto

lemma resolve_loop_spec:
  assumes ok: "\<forall>p \<in> set sels. \<exists>h. map_of rc p = Some h \<and> count_list sels p \<le> length h"
  shows "drop (length played) sels = rest \<Longrightarrow> length played \<le> length sels \<Longrightarrow>
     resolve_loop rc sels rest played =
       Inr (played @ map (spec_card rc sels) [length played ..< length sels])"
proof (induction rest arbitrary: played)
  case Nil
  then show ?case by simp
next
  case (Cons player rest)
  let ?i = "length played"
  from Cons.prems have lt: "?i < length sels" by (cases "?i = length sels") auto
  from Cons.prems lt have player: "player = sels ! ?i" and rest: "rest = drop (Suc ?i) sels"
    by (metis Cons_nth_drop_Suc list.inject)+
  from ok lt obtain h where h: "map_of rc player = Some h" "count_list sels player \<le> length h"
    unfolding player by (meson nth_mem)
  have k: "length (filter (\<lambda>p. p = player) (take ?i sels)) < length (sort h)"
    using count_take_less[OF lt] h(2) by (simp add: player count_list_filter)
  have step: "resolve_loop rc sels (player # rest) played =
      resolve_loop rc sels rest (played @ [spec_card rc sels ?i])"
    using h k by (simp add: spec_card_def Let_def count_list_filter player)
  have "resolve_loop rc sels rest (played @ [spec_card rc sels ?i]) =
      Inr ((played @ [spec_card rc sels ?i]) @ map (spec_card rc sels) [Suc ?i ..< length sels])"
    using Cons.IH[of "played @ [spec_card rc sels ?i]"] rest lt by simp
  with step show ?case using lt by (simp add: upt_conv_Cons)
qed


text \<open>
  Claim C1.  When every selected name is a key of the round's hand mapping and no name is
  selected more often than its hand has cards, the resolver returns, at each position
  \<open>i\<close>, the card at index \<open>k\<close> of the named player's ascending hand, \<open>k\<close> being the
  number of earlier positions that name the same player.  For the hands
  \<open>{A: [10, 50], B: [20]}\<close> and the selections \<open>[A, B, A]\<close> the played order is
  \<open>[10, 20, 50]\<close>.
\<close>

theorem resolve_positions:
  assumes "\<forall>p \<in> set selections. \<exists>h. map_of round_cards p = Some h \<and> count_list selections p \<le> length h"
  shows "resolve round_cards selections =
           Inr (map (spec_card round_cards selections) [0 ..< length selections])"
  using resolve_loop_spec[OF assms, of "[]" selections] by (simp add: resolve_def)

theorem resolve_positions_witness:
  "resolve [(''A'', [10, 50]), (''B'', [20])] [''A'', ''B'', ''A''] = Inr [10, 20, 50]"
  using resolve_positions[of "[''A'', ''B'', ''A'']" "[(''A'', [10, 50]), (''B'', [20])]"]
  by (simp add: spec_card_def upt_rec)

section \<open>Card distribution: the hands partition the sample\<close>

lemma update_fresh: "k \<notin> fst ` set al \<Longrightarrow> AList.update k v al = al @ [(k, v)]"
  by (induction al) auto

lemma deal_distinct:
  "distinct ps \<Longrightarrow> set ps \<inter> fst ` set pc = {} \<Longrightarrow>
   deal sel r i ps pc =
     pc @ zip ps (map (\<lambda>j. slice sel (j * r) ((j + 1) * r)) [i ..< i + length ps])"
proof (induction ps arbitrary: i pc)
  case Nil
  then show ?case by simp
next
  case (Cons p ps)
  have fresh: "p \<notin> fst ` set pc" using Cons.prems by auto
  have disj: "set ps \<inter> fst ` set (pc @ [(p, slice sel (i * r) ((i + 1) * r))]) = {}"
    using Cons.prems by auto
  have "deal sel r i (p # ps) pc =
      deal sel r (Suc i) ps (pc @ [(p, slice sel (i * r) ((i + 1) * r))])"
    by (simp add: update_fresh[OF fresh])
  also have "\<dots> = (pc @ [(p, slice sel (i * r) ((i + 1) * r))]) @
      zip ps (map (\<lambda>j. slice sel (j * r) ((j + 1) * r)) [Suc i ..< Suc i + length ps])"
    using Cons.IH[OF _ disj] Cons.prems by simp
  also have "\<dots> = pc @ zip (p # ps)
      (map (\<lambda>j. slice sel (j * r) ((j + 1) * r)) (i # [Suc i ..< Suc i + length ps]))"
    by simp
  also have "i # [Suc i ..< Suc i + length ps] = [i ..< i + length (p # ps)]"
    using upt_conv_Cons[of i "i + length (p # ps)"] by simp
  finally show ?case .
qed

lemma concat_blocks:
  "concat (map (\<lambda>j. slice xs (j * r) ((j + 1) * r)) [0 ..< p]) = take (p * r) xs"
proof (induction p)
  case 0
  then show ?case by simp
next
  case (Suc p)
  have "take (p * r + r) xs = take (p * r) xs @ take r (drop (p * r) xs)"
    by (rule take_add)
  with Suc show ?case by (simp add: slice_def add.commute)
qed

lemma length_block:
  "length xs = p * r \<Longrightarrow> j < p \<Longrightarrow> length (slice xs (j * r) ((j + 1) * r)) = r"
proof -
  assume len: "length xs = p * r" and j: "j < p"
  have "Suc j * r \<le> p * r" using j by (intro mult_le_mono1) simp
  then have "r \<le> p * r - j * r" by simp
  then show ?thesis by (simp add: slice_def len)
qed

lemma set_block_subset: "set (slice xs a b) \<subseteq> set xs"
  unfolding slice_def by (meson set_take_subset set_drop_subset subset_trans)

lemma distinct_block: "distinct xs \<Longrightarrow> distinct (slice xs a b)"
  by (simp add: slice_def)

lemma blocks_disjoint:
  assumes "distinct xs" "i < j"
  shows "set (slice xs (i * r) ((i + 1) * r)) \<inter> set (slice xs (j * r) ((j + 1) * r)) = {}"
proof -
  have "take (i * r + r) xs = take (i * r) xs @ take r (drop (i * r) xs)"
    by (rule take_add)
  then have a: "set (slice xs (i * r) ((i + 1) * r)) \<subseteq> set (take ((i + 1) * r) xs)"
    by (simp add: slice_def add.commute)
  have b: "set (slice xs (j * r) ((j + 1) * r)) \<subseteq> set (drop (j * r) xs)"
    by (simp add: slice_def set_take_subset)
  have "Suc i * r \<le> j * r" using assms(2) by (intro mult_le_mono1) simp
  then have "(i + 1) * r \<le> j * r" by simp
  then have "set (take ((i + 1) * r) xs) \<inter> set (drop (j * r) xs) = {}"
    using assms(1) by (rule set_take_disj_set_drop_if_distinct[rotated])
  with a b show ?thesis by blast
qed

lemma distribute_cards_distinct:
  assumes "distinct names" "int (length names * r) \<le> hi - lo + 1"
  shows "distribute_cards sample names r (lo, hi) =
     Inr (zip names (map (\<lambda>j. slice (sample [lo..hi] (length names * r)) (j * r) ((j + 1) * r))
                      [0 ..< length names]))"
  using assms deal_distinct[of names "[]" _ r 0]
  by (simp add: distribute_cards_def Let_def)


lemma first_cards: "take 4 [1..100] = [1, 2, 3, 4]" "take 2 [1..100] = [1, 2]"
  by (simp_all add: upto_rec1[of 1 100] upto_rec1[of 2 100] upto_rec1[of 3 100]
      upto_rec1[of 4 100])

lemma take_sample_ok: "k \<le> length population \<Longrightarrow> distinct population \<Longrightarrow>
   is_sample population k (take_sample population k)"
  by (simp add: is_sample_def take_sample_def set_take_subset)


text \<open>
  Claim C2, amended.  For a player list without repeated names, a round number and a pool
  range that holds at least \<open>p * r\<close> values, \<open>distribute_cards\<close> returns a mapping whose
  keys are the players in list order; player \<open>i\<close> holds the block
  \<open>selected_cards[i*r:(i+1)*r]\<close> of the sample; every hand has exactly \<open>r\<close> distinct
  values of the pool range; the hands are pairwise disjoint; together they are the
  \<open>p * r\<close> sampled values.  With a repeated name the later block replaces the earlier
  one under the same key, so fewer than \<open>p\<close> hands come back.
\<close>

theorem distribute_cards_partition:
  assumes names: "distinct names"
    and fits: "int (length names * r) \<le> hi - lo + 1"
    and sample: "is_sample [lo..hi] (length names * r) (sample [lo..hi] (length names * r))"
  shows "\<exists>hs. distribute_cards sample names r (lo, hi) = Inr hs
      \<and> map fst hs = names
      \<and> (\<forall>i < length names.
            map_of hs (names ! i) =
              Some (slice (sample [lo..hi] (length names * r)) (i * r) ((i + 1) * r)))
      \<and> (\<forall>h \<in> set (map snd hs). length h = r \<and> distinct h \<and> set h \<subseteq> {lo..hi})
      \<and> (\<forall>i < length hs. \<forall>j < length hs. i \<noteq> j \<longrightarrow> set (snd (hs ! i)) \<inter> set (snd (hs ! j)) = {})
      \<and> all_cards_of hs = sample [lo..hi] (length names * r)
      \<and> distinct (all_cards_of hs)
      \<and> card (set (all_cards_of hs)) = length names * r"
proof -
  let ?sel = "sample [lo..hi] (length names * r)"
  let ?blocks = "map (\<lambda>j. slice ?sel (j * r) ((j + 1) * r)) [0 ..< length names]"
  let ?hs = "zip names ?blocks"
  from sample have len: "length ?sel = length names * r" and dist: "distinct ?sel"
    and sub: "set ?sel \<subseteq> {lo..hi}" by (simp_all add: is_sample_def)
  have eq: "distribute_cards sample names r (lo, hi) = Inr ?hs"
    using names fits by (rule distribute_cards_distinct)
  have keys: "map fst ?hs = names" by simp
  have vals: "map snd ?hs = ?blocks" by simp
  have block_i: "\<forall>i < length names. map_of ?hs (names ! i) = Some (slice ?sel (i * r) ((i + 1) * r))"
  proof (intro allI impI)
    fix i assume i: "i < length names"
    then have "map_of ?hs (names ! i) = Some (?blocks ! i)"
      using names by (intro map_of_zip_nth) simp_all
    with i show "map_of ?hs (names ! i) = Some (slice ?sel (i * r) ((i + 1) * r))" by simp
  qed
  have each: "\<forall>h \<in> set (map snd ?hs). length h = r \<and> distinct h \<and> set h \<subseteq> {lo..hi}"
  proof
    fix h assume "h \<in> set (map snd ?hs)"
    then obtain j where j: "j < length names" and h: "h = slice ?sel (j * r) ((j + 1) * r)"
      unfolding vals by auto
    have "set h \<subseteq> set ?sel" unfolding h by (rule set_block_subset)
    with sub have "set h \<subseteq> {lo..hi}" by (rule subset_trans[rotated])
    moreover have "length h = r" unfolding h using len j by (rule length_block)
    moreover have "distinct h" unfolding h using dist by (rule distinct_block)
    ultimately show "length h = r \<and> distinct h \<and> set h \<subseteq> {lo..hi}" by simp
  qed
  have disj: "\<forall>i < length ?hs. \<forall>j < length ?hs. i \<noteq> j \<longrightarrow>
      set (snd (?hs ! i)) \<inter> set (snd (?hs ! j)) = {}"
  proof (intro allI impI)
    fix i j assume i: "i < length ?hs" and j: "j < length ?hs" and ne: "i \<noteq> j"
    from i j have si: "snd (?hs ! i) = slice ?sel (i * r) ((i + 1) * r)"
      and sj: "snd (?hs ! j) = slice ?sel (j * r) ((j + 1) * r)" by simp_all
    from ne consider "i < j" | "j < i" by linarith
    then show "set (snd (?hs ! i)) \<inter> set (snd (?hs ! j)) = {}"
    proof cases
      case 1
      then show ?thesis unfolding si sj by (rule blocks_disjoint[OF dist])
    next
      case 2
      then have "set (slice ?sel (j * r) ((j + 1) * r)) \<inter> set (slice ?sel (i * r) ((i + 1) * r)) = {}"
        by (rule blocks_disjoint[OF dist])
      then show ?thesis unfolding si sj by blast
    qed
  qed
  have all: "all_cards_of ?hs = ?sel"
    unfolding all_cards_of_def vals concat_blocks using len by simp
  have card: "card (set (all_cards_of ?hs)) = length names * r"
    unfolding all using dist len by (simp add: distinct_card)
  show ?thesis
    using eq keys block_i each disj all dist card by (intro exI[of _ ?hs]) (simp only: all simp_thms)
qed

theorem distribute_cards_partition_witness:
  "distinct [''A'', ''B''] \<and> int (length [''A'', ''B''] * 2) \<le> 100 - 1 + 1
   \<and> is_sample [1..100] (length [''A'', ''B''] * 2) (take_sample [1..100] (length [''A'', ''B''] * 2))
   \<and> (\<exists>hs. distribute_cards take_sample [''A'', ''B''] 2 (1, 100) = Inr hs
         \<and> map fst hs = [''A'', ''B'']
         \<and> all_cards_of hs = [1, 2, 3, 4]
         \<and> card (set (all_cards_of hs)) = 4)"
proof -
  have h1: "distinct [''A'', ''B'']" by simp
  have h2: "int (length [''A'', ''B''] * 2) \<le> 100 - 1 + 1" by simp
  have h3: "is_sample [1..100] (length [''A'', ''B''] * 2)
      (take_sample [1..100] (length [''A'', ''B''] * 2))"
    by (rule take_sample_ok) simp_all
  from distribute_cards_partition[where names = "[''A'', ''B'']" and r = 2 and lo = 1
      and hi = 100 and sample = take_sample, OF h1 h2 h3]
  obtain hs where hs: "distribute_cards take_sample [''A'', ''B''] 2 (1, 100) = Inr hs"
    "map fst hs = [''A'', ''B'']"
    "all_cards_of hs = take_sample [1..100] (length [''A'', ''B''] * 2)"
    "card (set (all_cards_of hs)) = length [''A'', ''B''] * 2"
    by (elim exE conjE)
  have len: "length [''A'', ''B''] * 2 = (4::nat)" by simp
  have "take_sample [1..100] (length [''A'', ''B''] * 2) = [1, 2, 3, 4]"
    unfolding len take_sample_def by (rule first_cards(1))
  with hs have "distribute_cards take_sample [''A'', ''B''] 2 (1, 100) = Inr hs
         \<and> map fst hs = [''A'', ''B'']
         \<and> all_cards_of hs = [1, 2, 3, 4]
         \<and> card (set (all_cards_of hs)) = 4"
    by simp
  then have "\<exists>hs. distribute_cards take_sample [''A'', ''B''] 2 (1, 100) = Inr hs
         \<and> map fst hs = [''A'', ''B'']
         \<and> all_cards_of hs = [1, 2, 3, 4]
         \<and> card (set (all_cards_of hs)) = 4" ..
  with h1 h2 h3 show ?thesis by (intro conjI)
qed

theorem distribute_cards_duplicate_names:
  "is_sample [1..100] (length [''A'', ''A''] * 1) (take_sample [1..100] (length [''A'', ''A''] * 1))
   \<and> distribute_cards take_sample [''A'', ''A''] 1 (1, 100) = Inr [(''A'', [2])]
   \<and> length [(''A'', [2::int])] \<noteq> length [''A'', ''A'']
   \<and> card (set (all_cards_of [(''A'', [2])])) \<noteq> length [''A'', ''A''] * 1"
proof -
  have len: "length [''A'', ''A''] * 1 = (2::nat)" by simp
  have s: "take_sample [1..100] (length [''A'', ''A''] * 1) = [1, 2]"
    unfolding len take_sample_def by (rule first_cards(2))
  have "is_sample [1..100] (length [''A'', ''A''] * 1) (take_sample [1..100] (length [''A'', ''A''] * 1))"
    by (rule take_sample_ok) simp_all
  moreover have "distribute_cards take_sample [''A'', ''A''] 1 (1, 100) = Inr [(''A'', [2])]"
  proof -
    have "distribute_cards take_sample [''A'', ''A''] 1 (1, 100) =
        Inr (deal (take_sample [1..100] (length [''A'', ''A''] * 1)) 1 0 [''A'', ''A''] [])"
      by (simp add: distribute_cards_def)
    also have "\<dots> = Inr [(''A'', [2])]"
      unfolding s by (simp add: slice_def)
    finally show ?thesis .
  qed
  moreover have "card (set (all_cards_of [(''A'', [2])])) \<noteq> length [''A'', ''A''] * 1"
    by (simp add: all_cards_of_def)
  ultimately show ?thesis by simp
qed

section \<open>Restart\<close>

text \<open>
  Claim C8.  In any status, restart sets \<open>current_round\<close> to 1, \<open>status\<close> to waiting and
  \<open>cards_per_round\<close> and \<open>results\<close> to empty dicts, and leaves \<open>room_code\<close>, \<open>players\<close>,
  \<open>max_rounds\<close> (and \<open>created_at\<close>) as they were; the restart button does this to the
  room's game whatever its status and saves it.
\<close>

theorem restart_resets:
  "current_round (restart g) = 1 \<and> status (restart g) = Waiting
   \<and> cards_per_round (restart g) = Map.empty \<and> results (restart g) = Map.empty
   \<and> room_code (restart g) = room_code g \<and> players (restart g) = players g
   \<and> max_rounds (restart g) = max_rounds g \<and> created_at (restart g) = created_at g
   \<and> show_admin_view sample now Restart_clicked code g games sess =
       Inr \<lparr>saved = Some (games(code \<mapsto> restart g)), session = None, shown = []\<rparr>"
  by (simp add: restart_def show_admin_view_def restart_clicked_def)

section \<open>Only the room's own entry is written\<close>

lemma saved_distribute:
  "saved (distribute_clicked sample code g games sess) = Some gs \<Longrightarrow> \<exists>g'. gs = games(code \<mapsto> g')"
  by (auto simp: distribute_clicked_def idle_def Let_def split: sum.splits if_splits)

lemma saved_verify:
  "verify_submitted now sels code g games sess = Inr out \<Longrightarrow> saved out = Some gs \<Longrightarrow>
   \<exists>g'. gs = games(code \<mapsto> g')"
  by (auto simp: verify_submitted_def Let_def split: sum.splits if_splits prod.splits)

lemma saved_show_admin_view:
  "show_admin_view sample now ev code g games sess = Inr out \<Longrightarrow> saved out = Some gs \<Longrightarrow>
   \<exists>g'. gs = games(code \<mapsto> g')"
  by (cases ev)
    (auto simp: show_admin_view_def idle_def continue_clicked_def restart_clicked_def
      dest: saved_distribute saved_verify split: if_splits option.splits)

lemma disk_main_request:
  "disk (main_request sample now sid code ev w) = disk w \<or>
   (\<exists>g'. disk (main_request sample now sid code ev w) = (disk w)(code \<mapsto> g'))"
  by (auto simp: main_request_def Let_def dest: saved_show_admin_view
      split: option.splits sum.splits)

text \<open>
  Claim C10.  Distributing cards, recording a verification result, advancing or finishing
  a round and restarting each save the dict they were given with only the entry of the
  room's own code replaced: every other room code maps to the same game as before, in the
  dict handed to \<open>save_games\<close> and in the file after the request.
\<close>

theorem other_rooms_unchanged:
  assumes "other \<noteq> code"
  shows "disk (main_request sample now sid code ev w) other = disk w other
      \<and> (\<forall>gs. saved (distribute_clicked sample code g games sess) = Some gs \<longrightarrow>
            gs other = games other)
      \<and> (\<forall>out gs. verify_submitted now sels code g games sess = Inr out \<longrightarrow>
            saved out = Some gs \<longrightarrow> gs other = games other)
      \<and> (\<exists>gs. saved (continue_clicked code g games) = Some gs \<and> gs other = games other)
      \<and> (\<exists>gs. saved (restart_clicked code g games) = Some gs \<and> gs other = games other)
      \<and> (\<forall>out gs. show_admin_view sample now ev code g games sess = Inr out \<longrightarrow>
            saved out = Some gs \<longrightarrow> gs other = games other)"
proof -
  have a: "\<forall>gs. saved (distribute_clicked sample code g games sess) = Some gs \<longrightarrow>
      gs other = games other"
    using assms by (auto dest: saved_distribute)
  have b: "\<forall>out gs. verify_submitted now sels code g games sess = Inr out \<longrightarrow>
      saved out = Some gs \<longrightarrow> gs other = games other"
    using assms by (auto dest: saved_verify)
  have c: "\<exists>gs. saved (continue_clicked code g games) = Some gs \<and> gs other = games other"
    using assms by (simp add: continue_clicked_def)
  have d: "\<exists>gs. saved (restart_clicked code g games) = Some gs \<and> gs other = games other"
    using assms by (simp add: restart_clicked_def)
  have e: "\<forall>out gs. show_admin_view sample now ev code g games sess = Inr out \<longrightarrow>
      saved out = Some gs \<longrightarrow> gs other = games other"
    using assms by (auto dest: saved_show_admin_view)
  have f: "disk (main_request sample now sid code ev w) other = disk w other"
    using assms disk_main_request[of sample now sid code ev w] by auto
  from f a b c d e show ?thesis by (intro conjI)
qed

theorem other_rooms_unchanged_witness:
  "''ROOM02'' \<noteq> ''ROOM01''
   \<and> disk (main_request take_sample ''t'' 0 ''ROOM01'' Distribute_clicked example_world) ''ROOM02''
       = Some (create_new_game ''ROOM02'' [''C'', ''D'', ''E''] 3 ''t1'')
   \<and> saved (distribute_clicked take_sample ''ROOM01'' two_players example_store None) \<noteq> None
   \<and> the (saved (distribute_clicked take_sample ''ROOM01'' two_players example_store None))
         ''ROOM02'' = example_store ''ROOM02''"
proof -
  have ne: "''ROOM02'' \<noteq> ''ROOM01''" by simp
  note inst = other_rooms_unchanged[where other = "''ROOM02''" and code = "''ROOM01''"
        and sample = take_sample and now = "''t''" and ev = Distribute_clicked and sid = 0
        and w = example_world and g = two_players and games = example_store and sess = None,
        OF ne]
  have "disk example_world ''ROOM02'' = Some (create_new_game ''ROOM02'' [''C'', ''D'', ''E''] 3 ''t1'')"
    by (simp add: example_world_def example_store_def)
  moreover from inst have "disk (main_request take_sample ''t'' 0 ''ROOM01'' Distribute_clicked
      example_world) ''ROOM02'' = disk example_world ''ROOM02''"
    by (rule conjunct1)
  ultimately have a: "disk (main_request take_sample ''t'' 0 ''ROOM01'' Distribute_clicked
      example_world) ''ROOM02'' = Some (create_new_game ''ROOM02'' [''C'', ''D'', ''E''] 3 ''t1'')"
    by simp
  obtain gs where gs: "saved (distribute_clicked take_sample ''ROOM01'' two_players example_store None)
      = Some gs"
    by (simp add: distribute_clicked_def distribute_cards_def default_range_def two_players_def
        create_new_game_def Let_def)
  from inst[THEN conjunct2, THEN conjunct1]
  have "\<forall>gs. saved (distribute_clicked take_sample ''ROOM01'' two_players example_store
      None) = Some gs \<longrightarrow> gs ''ROOM02'' = example_store ''ROOM02''" .
  with gs have "gs ''ROOM02'' = example_store ''ROOM02''" by blast
  with gs have b: "saved (distribute_clicked take_sample ''ROOM01'' two_players example_store None)
      \<noteq> None"
    and c: "the (saved (distribute_clicked take_sample ''ROOM01'' two_players example_store None))
      ''ROOM02'' = example_store ''ROOM02''"
    by simp_all
  from ne a b c show ?thesis by (intro conjI)
qed

section \<open>Capacity of the card pool\<close>

lemma deal_nonempty: "names \<noteq> [] \<or> pc \<noteq> [] \<Longrightarrow> deal sel r i names pc \<noteq> []"
  by (induction names arbitrary: i pc) simp_all

lemma distribute_cards_Inl:
  "distribute_cards sample names r (lo, hi) = Inl Not_enough_cards \<longleftrightarrow>
     hi - lo + 1 < int (length names * r)"
  by (simp add: distribute_cards_def Let_def)

lemma distribute_clicked_capacity:
  "100 < length (players g) * current_round g \<Longrightarrow>
   distribute_clicked sample code g games sess =
     \<lparr>saved = None, session = sess, shown = [Not_enough_cards]\<rparr>"
  by (simp add: distribute_clicked_def distribute_cards_def default_range_def Let_def)

lemma distribute_clicked_fits:
  "players g \<noteq> [] \<Longrightarrow> length (players g) * current_round g \<le> 100 \<Longrightarrow>
   distribute_clicked sample code g games sess =
     \<lparr>saved = Some (games(code \<mapsto>
         g\<lparr>cards_per_round := (cards_per_round g)(current_round g \<mapsto>
              deal (sample [1..100] (length (players g) * current_round g))
                (current_round g) 0 (players g) []),
           status := Playing\<rparr>)),
      session = sess, shown = []\<rparr>"
  by (simp add: distribute_clicked_def distribute_cards_def default_range_def Let_def deal_nonempty)

lemma main_request_capacity:
  assumes "disk w code = Some g" "100 < length (players g) * current_round g"
  shows "main_request sample now sid code Distribute_clicked w = w"
  using assms(1)
  by (cases w) (simp add: main_request_def Let_def show_admin_view_def idle_def
      distribute_clicked_capacity[OF assms(2)])

text \<open>
  Claim C5.  \<open>distribute_cards\<close> reports the capacity error exactly when \<open>p * r\<close> exceeds
  the pool size.  With the pool 1..100 and \<open>p * r > 100\<close> the distribute button shows the
  error, saves nothing and leaves the session as it was, so the request leaves the file
  unchanged: no entry in \<open>cards_per_round\<close>, same round, same status.  For a room with at
  least one player the button saves a distribution exactly when \<open>p * r \<le> 100\<close>.
\<close>

theorem capacity_error:
  "(distribute_cards sample names r (lo, hi) = Inl Not_enough_cards \<longleftrightarrow>
      hi - lo + 1 < int (length names * r))
   \<and> (100 < length (players g) * current_round g \<longrightarrow>
        distribute_clicked sample code g games sess =
          \<lparr>saved = None, session = sess, shown = [Not_enough_cards]\<rparr>)
   \<and> (100 < length (players g) * current_round g \<longrightarrow> disk w code = Some g \<longrightarrow>
        main_request sample now sid code Distribute_clicked w = w)
   \<and> (players g \<noteq> [] \<longrightarrow>
        ((\<exists>gs. saved (distribute_clicked sample code g games sess) = Some gs) \<longleftrightarrow>
         length (players g) * current_round g \<le> 100))"
proof -
  have d: "players g \<noteq> [] \<longrightarrow>
        ((\<exists>gs. saved (distribute_clicked sample code g games sess) = Some gs) \<longleftrightarrow>
         length (players g) * current_round g \<le> 100)"
  proof (intro impI iffI)
    assume "players g \<noteq> []" "length (players g) * current_round g \<le> 100"
    from distribute_clicked_fits[OF this, of sample code games sess]
    show "\<exists>gs. saved (distribute_clicked sample code g games sess) = Some gs" by simp
  next
    assume "\<exists>gs. saved (distribute_clicked sample code g games sess) = Some gs"
    then show "length (players g) * current_round g \<le> 100"
      using distribute_clicked_capacity[of g sample code games sess]
      by (cases "100 < length (players g) * current_round g") auto
  qed
  show ?thesis
    using distribute_cards_Inl distribute_clicked_capacity main_request_capacity d
    by (intro conjI impI) blast+
qed

theorem capacity_error_witness:
  "100 < length (players fifty_first_round) * current_round fifty_first_round
   \<and> distribute_clicked take_sample ''ROOM01'' fifty_first_round example_store None =
       \<lparr>saved = None, session = None, shown = [Not_enough_cards]\<rparr>
   \<and> players two_players \<noteq> []
   \<and> length (players two_players) * current_round two_players \<le> 100
   \<and> (\<exists>gs. saved (distribute_clicked take_sample ''ROOM01'' two_players example_store None) = Some gs)"
proof -
  have big: "100 < length (players fifty_first_round) * current_round fifty_first_round"
    by (simp add: fifty_first_round_def two_players_def create_new_game_def)
  have ne: "players two_players \<noteq> []"
    and small: "length (players two_players) * current_round two_players \<le> 100"
    by (simp_all add: two_players_def create_new_game_def)
  note a = capacity_error[where g = fifty_first_round and sample = take_sample
      and code = "''ROOM01''" and games = example_store and sess = None,
      THEN conjunct2, THEN conjunct1, rule_format, OF big]
  note b = capacity_error[where g = two_players and sample = take_sample
      and code = "''ROOM01''" and games = example_store and sess = None,
      THEN conjunct2, THEN conjunct2, THEN conjunct2, rule_format, OF ne]
  from b small have "\<exists>gs. saved (distribute_clicked take_sample ''ROOM01'' two_players example_store None) = Some gs"
    by simp
  with big a ne small show ?thesis by (intro conjI)
qed

section \<open>The reveal sequencer\<close>

lemma reveal_times_run:
  "current_card rv + k \<le> length (rv_correct_order rv) \<Longrightarrow>
   reveal_times k rv = Some (rv\<lparr>current_card := current_card rv + k\<rparr>)"
proof (induction k arbitrary: rv)
  case 0
  then show ?case by simp
next
  case (Suc k)
  from Suc.prems have "current_card (reveal_next rv) + k \<le> length (rv_correct_order (reveal_next rv))"
    by (simp add: reveal_next_def)
  from Suc.IH[OF this] Suc.prems show ?case
    by (simp add: reveal_available_def reveal_next_def)
qed

lemma reveal_times_over:
  "current_card rv \<le> length (rv_correct_order rv) \<Longrightarrow>
   length (rv_correct_order rv) < current_card rv + k \<Longrightarrow> reveal_times k rv = None"
proof (induction k arbitrary: rv)
  case 0
  then show ?case by simp
next
  case (Suc k)
  show ?case
  proof (cases "reveal_available rv")
    case True
    with Suc.prems have "current_card (reveal_next rv) \<le> length (rv_correct_order (reveal_next rv))"
      and "length (rv_correct_order (reveal_next rv)) < current_card (reveal_next rv) + k"
      by (simp_all add: reveal_next_def reveal_available_def)
    from Suc.IH[OF this] True show ?thesis by simp
  next
    case False
    then show ?thesis by simp
  qed
qed

lemma reveal_times_eq:
  "reveal_times k (new_reveal cr correct played ok) =
     (if k \<le> length correct
      then Some ((new_reveal cr correct played ok)\<lparr>current_card := k\<rparr>) else None)"
  using reveal_times_run[of "new_reveal cr correct played ok" k]
    reveal_times_over[of "new_reveal cr correct played ok" k]
  by (simp add: new_reveal_def)

lemma panel_reveal_next: "panel (reveal_next rv) i = panel rv i"
  by (simp add: panel_def reveal_next_def)

lemma revealed_panels_next:
  "revealed_panels (reveal_next rv) = revealed_panels rv @ [panel rv (current_card rv)]"
  by (simp add: revealed_panels_def panel_def reveal_next_def)

lemma panel_correct:
  "snd (panel rv i) \<longleftrightarrow>
     i < length (rv_played_order rv) \<and> rv_played_order rv ! i = rv_correct_order rv ! i"
  by (simp add: panel_def Let_def)

text \<open>
  Claim C6.  The reveal state a verification creates has \<open>current_card = 0\<close> and holds
  the round's correct order, played order and verdict.  The reveal button is there exactly
  while \<open>current_card < len(correct_order)\<close>; pressing it adds 1 to \<open>current_card\<close> and
  nothing else, which adds the panel of position \<open>current_card\<close> to the revealed ones, a
  panel being marked correct iff the played order has that position and holds the correct
  card there.  From the start state \<open>k\<close> presses succeed iff \<open>k \<le> len(correct_order)\<close>;
  after \<open>len(correct_order)\<close> presses the reveal button is gone and the continue button is
  there; the continue button is there exactly when the reveal button is not.  A click that
  reaches no button and a run with no event leave the reveal state as it was.
\<close>

theorem reveal_sequencer:
  "current_card (new_reveal cr correct played ok) = 0
   \<and> rv_correct_order (new_reveal cr correct played ok) = correct
   \<and> rv_played_order (new_reveal cr correct played ok) = played
   \<and> rv_is_correct (new_reveal cr correct played ok) = ok
   \<and> (reveal_available rv \<longleftrightarrow> current_card rv < length (rv_correct_order rv))
   \<and> (continue_available rv \<longleftrightarrow> \<not> reveal_available rv)
   \<and> reveal_next rv = rv\<lparr>current_card := current_card rv + 1\<rparr>
   \<and> revealed_panels (reveal_next rv) = revealed_panels rv @ [panel rv (current_card rv)]
   \<and> fst (panel rv i) = rv_correct_order rv ! i
   \<and> (snd (panel rv i) \<longleftrightarrow>
        i < length (rv_played_order rv) \<and> rv_played_order rv ! i = rv_correct_order rv ! i)
   \<and> reveal_times k (new_reveal cr correct played ok) =
        (if k \<le> length correct
         then Some ((new_reveal cr correct played ok)\<lparr>current_card := k\<rparr>) else None)
   \<and> \<not> reveal_available ((new_reveal cr correct played ok)\<lparr>current_card := length correct\<rparr>)
   \<and> continue_available ((new_reveal cr correct played ok)\<lparr>current_card := length correct\<rparr>)
   \<and> show_admin_view sample now Reveal_clicked code g games (Some rv) =
        (if status g = Playing \<and> reveal_available rv
         then Inr \<lparr>saved = None, session = Some (reveal_next rv), shown = []\<rparr>
         else Inr (idle (Some rv)))
   \<and> show_admin_view sample now Continue_clicked code g games (Some rv) =
        (if status g = Playing \<and> continue_available rv
         then Inr (continue_clicked code g games)
         else Inr (idle (Some rv)))
   \<and> show_admin_view sample now No_event code g games sess =
        Inr \<lparr>saved = None, session = sess, shown = []\<rparr>"
proof -
  have a: "show_admin_view sample now Reveal_clicked code g games (Some rv) =
        (if status g = Playing \<and> reveal_available rv
         then Inr \<lparr>saved = None, session = Some (reveal_next rv), shown = []\<rparr>
         else Inr (idle (Some rv)))"
    by (simp add: show_admin_view_def reveal_available_def)
  have b: "show_admin_view sample now Continue_clicked code g games (Some rv) =
        (if status g = Playing \<and> continue_available rv
         then Inr (continue_clicked code g games)
         else Inr (idle (Some rv)))"
    by (simp add: show_admin_view_def continue_available_def)
  have c: "show_admin_view sample now No_event code g games sess =
        Inr \<lparr>saved = None, session = sess, shown = []\<rparr>"
    by (simp add: show_admin_view_def idle_def)
  have d: "fst (panel rv i) = rv_correct_order rv ! i"
    by (simp add: panel_def Let_def)
  have e: "continue_available rv \<longleftrightarrow> \<not> reveal_available rv"
    by (simp add: continue_available_def reveal_available_def)
  have f1: "current_card (new_reveal cr correct played ok) = 0"
    and f2: "rv_correct_order (new_reveal cr correct played ok) = correct"
    and f3: "rv_played_order (new_reveal cr correct played ok) = played"
    and f4: "rv_is_correct (new_reveal cr correct played ok) = ok"
    by (simp_all add: new_reveal_def)
  have h: "reveal_available rv \<longleftrightarrow> current_card rv < length (rv_correct_order rv)"
    by (simp add: reveal_available_def)
  have n: "reveal_next rv = rv\<lparr>current_card := current_card rv + 1\<rparr>"
    by (simp add: reveal_next_def)
  have t1: "\<not> reveal_available
      ((new_reveal cr correct played ok)\<lparr>current_card := length correct\<rparr>)"
    and t2: "continue_available
      ((new_reveal cr correct played ok)\<lparr>current_card := length correct\<rparr>)"
    by (simp_all add: reveal_available_def continue_available_def new_reveal_def)
  from f1 f2 f3 f4 h e n revealed_panels_next[of rv] d panel_correct[of rv i]
    reveal_times_eq[of k cr correct played ok] t1 t2 a b c
  show ?thesis by (intro conjI)
qed

section \<open>Submitting an order\<close>

lemma verify_submitted_ok:
  assumes "cards_per_round g (current_round g) = Some cards"
    and "resolve cards sels = Inr played"
    and "length played = length (players g) * current_round g"
  shows "verify_submitted now sels code g games sess =
     Inr \<lparr>saved = Some (games(code \<mapsto> g\<lparr>results := (results g)(current_round g \<mapsto>
              \<lparr>played_order = played, correct_order = sort (all_cards_of cards),
               is_correct = (played = sort (all_cards_of cards)), timestamp = now\<rparr>)\<rparr>)),
          session = (case sess of
                       None \<Rightarrow> Some (new_reveal (current_round g) (sort (all_cards_of cards)) played
                                 (played = sort (all_cards_of cards)))
                     | Some rv \<Rightarrow> Some rv),
          shown = []\<rparr>"
  using assms by (simp add: verify_submitted_def try_resolve_def Let_def)

lemma verified_once_fields:
  "status verified_once = Playing" "current_round verified_once = 1"
  "players verified_once = [''A'', ''B'']"
  "cards_per_round verified_once = [1 \<mapsto> [(''A'', [10]), (''B'', [20])]]"
  by (simp_all add: verified_once_def two_players_def create_new_game_def)

lemma resolve_A_B: "resolve [(''A'', [10]), (''B'', [20])] [''A'', ''B''] = Inr [10, 20]"
  by (simp add: resolve_def)

lemma take_sample_two: "take_sample [1..100] (Suc (Suc 0)) = [1, 2]"
  using first_cards(2) by (simp add: take_sample_def numeral_2_eq_2)

lemmas eval_defs =
  main_request_def show_admin_view_def distribute_clicked_def distribute_cards_def
  default_range_def verify_submitted_def try_resolve_def resolve_def all_cards_of_def
  continue_clicked_def restart_clicked_def advance_or_finish_def restart_def idle_def
  reveal_next_def new_reveal_def slice_def take_sample_two
  example_world_def example_store_def two_players_def create_new_game_def

text \<open>
  Claim C4, amended.  In status playing, a submission that resolves to \<open>p * r\<close> cards is
  accepted whether or not the round already has a result: \<open>results[current_round]\<close> is
  set to the new round result and the game is saved.  The reveal state is created, at
  \<open>current_card = 0\<close> with the new correct order, played order and verdict, only when the
  session has none; a reveal state already in the session is left as it is.
\<close>

theorem resubmission_overwrites:
  assumes "status g = Playing"
    and "cards_per_round g (current_round g) = Some cards"
    and "resolve cards sels = Inr played"
    and "length played = length (players g) * current_round g"
  shows "show_admin_view sample now (Verify_submitted sels) code g games sess =
     Inr \<lparr>saved = Some (games(code \<mapsto> g\<lparr>results := (results g)(current_round g \<mapsto>
              \<lparr>played_order = played, correct_order = sort (all_cards_of cards),
               is_correct = (played = sort (all_cards_of cards)), timestamp = now\<rparr>)\<rparr>)),
          session = (case sess of
                       None \<Rightarrow> Some (new_reveal (current_round g) (sort (all_cards_of cards)) played
                                 (played = sort (all_cards_of cards)))
                     | Some rv \<Rightarrow> Some rv),
          shown = []\<rparr>"
  using assms(1) verify_submitted_ok[OF assms(2-4)] by (simp add: show_admin_view_def)

theorem resubmission_overwrites_witness:
  "status verified_once = Playing
   \<and> cards_per_round verified_once (current_round verified_once) = Some [(''A'', [10]), (''B'', [20])]
   \<and> resolve [(''A'', [10]), (''B'', [20])] [''A'', ''B''] = Inr [10, 20]
   \<and> length [10, 20 :: int] = length (players verified_once) * current_round verified_once
   \<and> results verified_once (current_round verified_once) \<noteq> None
   \<and> show_admin_view take_sample ''t3'' (Verify_submitted [''A'', ''B'']) ''ROOM01''
         verified_once example_store (Some stale_reveal) =
       Inr \<lparr>saved = Some (example_store(''ROOM01'' \<mapsto> verified_once\<lparr>results :=
                (results verified_once)(1 \<mapsto>
                  \<lparr>played_order = [10, 20], correct_order = [10, 20],
                   is_correct = True, timestamp = ''t3''\<rparr>)\<rparr>)),
            session = Some stale_reveal, shown = []\<rparr>"
proof -
  have h1: "status verified_once = Playing" by (rule verified_once_fields)
  have h2: "cards_per_round verified_once (current_round verified_once) =
      Some [(''A'', [10]), (''B'', [20])]"
    by (simp add: verified_once_fields)
  have h3: "resolve [(''A'', [10]), (''B'', [20])] [''A'', ''B''] = Inr [10, 20]"
    by (rule resolve_A_B)
  have h4: "length [10, 20 :: int] = length (players verified_once) * current_round verified_once"
    by (simp add: verified_once_fields)
  have h5: "results verified_once (current_round verified_once) \<noteq> None"
    by (simp add: verified_once_def two_players_def create_new_game_def)
  from resubmission_overwrites[OF h1 h2 h3 h4, of take_sample "''t3''" "''ROOM01''"
      example_store "Some stale_reveal"]
  have "show_admin_view take_sample ''t3'' (Verify_submitted [''A'', ''B'']) ''ROOM01''
         verified_once example_store (Some stale_reveal) =
       Inr \<lparr>saved = Some (example_store(''ROOM01'' \<mapsto> verified_once\<lparr>results :=
                (results verified_once)(1 \<mapsto>
                  \<lparr>played_order = [10, 20], correct_order = [10, 20],
                   is_correct = True, timestamp = ''t3''\<rparr>)\<rparr>)),
            session = Some stale_reveal, shown = []\<rparr>"
    by (simp add: all_cards_of_def verified_once_fields)
  with h1 h2 h3 h4 h5 show ?thesis by (intro conjI)
qed

text \<open>
  The claim as stated fails: after distributing, submitting B, A and revealing one card,
  the same session submits A, B.  The result of round 1 becomes the new one, but the
  session's reveal state still stands at card 1 with the old played order and verdict.
\<close>

theorem resubmission_keeps_reveal:
  "status (the (disk resubmit_before ''ROOM01'')) = Playing
   \<and> results (the (disk resubmit_before ''ROOM01'')) 1 \<noteq> None
   \<and> results (the (disk resubmit_trace ''ROOM01'')) 1 =
       Some \<lparr>played_order = [1, 2], correct_order = [1, 2], is_correct = True,
             timestamp = ''t3''\<rparr>
   \<and> sessions resubmit_trace 0 =
       Some \<lparr>rv_round = 1, rv_correct_order = [1, 2], rv_played_order = [2, 1],
             current_card = 1, rv_is_correct = False\<rparr>"
  by (simp add: resubmit_trace_def resubmit_before_def eval_defs Let_def)

text \<open>
  Claim C3.  A malformed submission should be reported as a validation error with the
  state unchanged.  The code reports the wrong count with \<open>st.error\<close> and saves nothing,
  but the \<open>except\<close> clause catches \<open>ValueError\<close> only: naming player A twice in round 1,
  where A holds one card, raises \<open>IndexError\<close> out of \<open>show_admin_view\<close>, and a name
  that has no hand raises \<open>KeyError\<close>.
\<close>

theorem over_named_player_raises:
  "show_admin_view take_sample ''t3'' (Verify_submitted [''A'', ''A'']) ''ROOM01''
     verified_once example_store None = Inl IndexError
   \<and> show_admin_view take_sample ''t3'' (Verify_submitted [''A'', ''Z'']) ''ROOM01''
       verified_once example_store None = Inl KeyError
   \<and> show_admin_view take_sample ''t3'' (Verify_submitted [''A'']) ''ROOM01''
       verified_once example_store None =
         Inr \<lparr>saved = None, session = None, shown = [Wrong_count]\<rparr>"
  by (simp add: show_admin_view_def verify_submitted_def try_resolve_def resolve_def
      verified_once_fields)

section \<open>Round advancement\<close>

lemma rounds_ok_step:
  assumes "show_admin_view sample now ev code g games sess = Inr out"
    and "saved out = Some gs" and "rounds_ok g"
  shows "\<exists>g'. gs code = Some g' \<and> rounds_ok g'"
proof (cases ev)
  case Distribute_clicked
  with assms show ?thesis
    by (auto simp: show_admin_view_def distribute_clicked_def idle_def rounds_ok_def Let_def
        split: if_splits sum.splits)
next
  case (Verify_submitted sels)
  with assms show ?thesis
    by (auto simp: show_admin_view_def verify_submitted_def idle_def rounds_ok_def Let_def
        split: if_splits sum.splits prod.splits)
next
  case Continue_clicked
  with assms show ?thesis
    by (auto simp: show_admin_view_def continue_clicked_def advance_or_finish_def idle_def
        rounds_ok_def split: if_splits option.splits)
next
  case Restart_clicked
  with assms show ?thesis
    by (auto simp: show_admin_view_def restart_clicked_def restart_def rounds_ok_def)
qed (use assms in \<open>auto simp: show_admin_view_def idle_def split: if_splits option.splits\<close>)

lemma reachable_rounds_ok:
  "reachable S code w \<Longrightarrow> \<exists>g. disk w code = Some g \<and> rounds_ok g"
proof (induction rule: reachable.induct)
  case (created rounds w names now)
  then show ?case by (simp add: rounds_ok_def create_new_game_def)
next
  case (request w sid sample now ev)
  then obtain g where g: "disk w code = Some g" "rounds_ok g" by blast
  show ?case
  proof (cases "code = []")
    case True
    with g show ?thesis by (simp add: main_request_def)
  next
    case room: False
    show ?thesis
    proof (cases "show_admin_view sample now ev code g (disk w) (sessions w sid)")
      case (Inl e)
      with g room show ?thesis by (simp add: main_request_def)
    next
      case (Inr out)
      show ?thesis
      proof (cases "saved out")
        case None
        with g room Inr show ?thesis by (simp add: main_request_def)
      next
        case (Some gs)
        from rounds_ok_step[OF Inr Some g(2)] g(1) room Inr Some show ?thesis
          by (simp add: main_request_def)
      qed
    qed
  qed
qed

lemma result_backed_step:
  assumes "show_admin_view sample now ev code g games sess = Inr out"
    and "result_backed g sess"
  shows "case saved out of
           None \<Rightarrow> result_backed g (session out)
         | Some gs \<Rightarrow> \<exists>g'. gs code = Some g' \<and> result_backed g' (session out)"
proof (cases ev)
  case Distribute_clicked
  with assms show ?thesis
    by (auto simp: show_admin_view_def distribute_clicked_def idle_def result_backed_def Let_def
        split: if_splits sum.splits)
next
  case (Verify_submitted sels)
  with assms show ?thesis
    by (auto simp: show_admin_view_def verify_submitted_def idle_def result_backed_def Let_def
        split: if_splits sum.splits prod.splits option.splits)
next
  case Reveal_clicked
  with assms show ?thesis
    by (auto simp: show_admin_view_def idle_def result_backed_def split: if_splits option.splits)
next
  case Continue_clicked
  with assms show ?thesis
    by (auto simp: show_admin_view_def continue_clicked_def advance_or_finish_def idle_def
        result_backed_def split: if_splits option.splits)
next
  case Restart_clicked
  with assms show ?thesis
    by (auto simp: show_admin_view_def restart_clicked_def restart_def result_backed_def)
next
  case No_event
  with assms show ?thesis by (auto simp: show_admin_view_def idle_def)
qed

lemma reachable_result_backed:
  "reachable {sid} code w \<Longrightarrow> \<exists>g. disk w code = Some g \<and> result_backed g (sessions w sid)"
proof (induction rule: reachable.induct)
  case (created rounds w names now)
  then show ?case by (simp add: result_backed_def create_new_game_def)
next
  case (request w sid' sample now ev)
  then have sid': "sid' = sid" by simp
  from request obtain g where g: "disk w code = Some g" "result_backed g (sessions w sid)"
    by blast
  show ?case
  proof (cases "code = []")
    case True
    with g show ?thesis by (simp add: main_request_def)
  next
    case room: False
    show ?thesis
    proof (cases "show_admin_view sample now ev code g (disk w) (sessions w sid)")
      case (Inl e)
      with g room show ?thesis by (simp add: main_request_def sid')
    next
      case (Inr out)
      from result_backed_step[OF Inr g(2)] g(1) room Inr show ?thesis
        by (auto simp: main_request_def sid' split: option.splits)
    qed
  qed
qed

lemma reachable_run:
  "reachable S code w \<Longrightarrow> fst ` set evs \<subseteq> S \<Longrightarrow> reachable S code (run sample now code evs w)"
proof (induction evs arbitrary: w)
  case Nil
  then show ?case by simp
next
  case (Cons e evs)
  obtain sid ev where e: "e = (sid, ev)" by (cases e)
  from Cons.prems have "reachable S code (main_request sample now sid code ev w)"
    unfolding e by (intro reachable.request) auto
  from Cons.IH[OF this] Cons.prems show ?case by (simp add: e)
qed

lemma reachable_example_world: "reachable S ''ROOM01'' example_world"
  by (rule reachable.created[of 1 _ _ "[''A'', ''B'']" "''t0''"])
    (simp_all add: example_world_def example_store_def two_players_def)

lemma one_session_finished:
  "status (the (disk one_session_trace ''ROOM01'')) = Finished"
  by (simp add: one_session_trace_def eval_defs Let_def)

text \<open>
  Claim C7, amended.  When continue fires (status playing, reveal complete), the game
  saved is \<open>advance_or_finish\<close> of the current one: with \<open>current_round < max_rounds\<close>
  the round number grows by 1 and the status is waiting; with
  \<open>current_round = max_rounds\<close> the status is finished and the round number unchanged.
  In every state reachable from the creation of a room with at least one round, whatever
  sessions act, a finished game has \<open>current_round = max_rounds\<close>.  When all requests
  come from one session, a finished game also has a result for that round.
\<close>

theorem advance_or_finish_rounds:
  "(current_round g < max_rounds g \<longrightarrow>
      advance_or_finish g = g\<lparr>current_round := current_round g + 1, status := Waiting\<rparr>)
   \<and> (current_round g = max_rounds g \<longrightarrow> advance_or_finish g = g\<lparr>status := Finished\<rparr>)
   \<and> (status g = Playing \<and> continue_available rv \<longrightarrow>
        show_admin_view sample now Continue_clicked code g games (Some rv) =
          Inr \<lparr>saved = Some (games(code \<mapsto> advance_or_finish g)), session = None, shown = []\<rparr>)
   \<and> (reachable S code w \<longrightarrow>
        (\<exists>g'. disk w code = Some g' \<and>
           (status g' = Finished \<longrightarrow> current_round g' = max_rounds g')))
   \<and> (reachable {sid} code w \<longrightarrow>
        (\<exists>g'. disk w code = Some g' \<and>
           (status g' = Finished \<longrightarrow>
              current_round g' = max_rounds g' \<and> results g' (current_round g') \<noteq> None)))"
proof -
  have a: "current_round g < max_rounds g \<longrightarrow>
      advance_or_finish g = g\<lparr>current_round := current_round g + 1, status := Waiting\<rparr>"
    and b: "current_round g = max_rounds g \<longrightarrow> advance_or_finish g = g\<lparr>status := Finished\<rparr>"
    by (simp_all add: advance_or_finish_def)
  have c: "status g = Playing \<and> continue_available rv \<longrightarrow>
        show_admin_view sample now Continue_clicked code g games (Some rv) =
          Inr \<lparr>saved = Some (games(code \<mapsto> advance_or_finish g)), session = None, shown = []\<rparr>"
    by (simp add: show_admin_view_def continue_available_def continue_clicked_def)
  have d: "reachable S code w \<longrightarrow>
        (\<exists>g'. disk w code = Some g' \<and>
           (status g' = Finished \<longrightarrow> current_round g' = max_rounds g'))"
    using reachable_rounds_ok[of S code w] by (auto simp: rounds_ok_def)
  have e: "reachable {sid} code w \<longrightarrow>
        (\<exists>g'. disk w code = Some g' \<and>
           (status g' = Finished \<longrightarrow>
              current_round g' = max_rounds g' \<and> results g' (current_round g') \<noteq> None))"
  proof
    assume r: "reachable {sid} code w"
    from reachable_rounds_ok[OF r] reachable_result_backed[OF r]
    show "\<exists>g'. disk w code = Some g' \<and>
           (status g' = Finished \<longrightarrow>
              current_round g' = max_rounds g' \<and> results g' (current_round g') \<noteq> None)"
      by (auto simp: rounds_ok_def result_backed_def)
  qed
  from a b c d e show ?thesis by (intro conjI)
qed

theorem advance_or_finish_rounds_witness:
  "reachable {0} ''ROOM01'' one_session_trace
   \<and> status (the (disk one_session_trace ''ROOM01'')) = Finished
   \<and> current_round (the (disk one_session_trace ''ROOM01'')) =
       max_rounds (the (disk one_session_trace ''ROOM01''))
   \<and> results (the (disk one_session_trace ''ROOM01''))
       (current_round (the (disk one_session_trace ''ROOM01''))) \<noteq> None
   \<and> current_round two_players = max_rounds two_players
   \<and> advance_or_finish two_players = two_players\<lparr>status := Finished\<rparr>"
proof -
  have r: "reachable {0} ''ROOM01'' one_session_trace"
    unfolding one_session_trace_def
    by (rule reachable_run[OF reachable_example_world]) simp
  have eq: "current_round two_players = max_rounds two_players"
    by (simp add: two_players_def create_new_game_def)
  note inst = advance_or_finish_rounds[where g = two_players and sid = 0
      and code = "''ROOM01''" and w = one_session_trace]
  from inst eq have adv: "advance_or_finish two_players = two_players\<lparr>status := Finished\<rparr>"
    by blast
  from inst r obtain g' where g': "disk one_session_trace ''ROOM01'' = Some g'"
    "status g' = Finished \<longrightarrow>
       current_round g' = max_rounds g' \<and> results g' (current_round g') \<noteq> None"
    by blast
  from g'(1) one_session_finished have fin: "status g' = Finished" by simp
  with g'(2) have "current_round g' = max_rounds g'" "results g' (current_round g') \<noteq> None"
    by blast+
  with g'(1) have
    "current_round (the (disk one_session_trace ''ROOM01'')) =
       max_rounds (the (disk one_session_trace ''ROOM01''))"
    "results (the (disk one_session_trace ''ROOM01''))
       (current_round (the (disk one_session_trace ''ROOM01''))) \<noteq> None"
    by simp_all
  with r one_session_finished eq adv show ?thesis by (intro conjI)
qed

text \<open>
  With two sessions the result can be missing: session 1 verifies and reveals round 1,
  session 0 restarts the game, session 1 distributes again and its complete reveal state
  of the earlier verification lets it continue.  The game is finished with no result.
\<close>

theorem finished_without_result:
  "reachable UNIV ''ROOM01'' two_sessions_trace
   \<and> disk two_sessions_trace ''ROOM01'' \<noteq> None
   \<and> status (the (disk two_sessions_trace ''ROOM01'')) = Finished
   \<and> results (the (disk two_sessions_trace ''ROOM01''))
        (current_round (the (disk two_sessions_trace ''ROOM01''))) = None"
proof -
  have "reachable UNIV ''ROOM01'' two_sessions_trace"
    unfolding two_sessions_trace_def
    by (rule reachable_run[OF reachable_example_world]) simp
  moreover have "disk two_sessions_trace ''ROOM01'' \<noteq> None
   \<and> status (the (disk two_sessions_trace ''ROOM01'')) = Finished
   \<and> results (the (disk two_sessions_trace ''ROOM01''))
        (current_round (the (disk two_sessions_trace ''ROOM01''))) = None"
    by (simp add: two_sessions_trace_def eval_defs Let_def)
  ultimately show ?thesis by (intro conjI) simp_all
qed

section \<open>Order resolution: the round trip\<close>

lemma holder_Cons:
  "holder (ph # rest) v = (if v \<in> set (snd ph) then fst ph else holder rest v)"
  by (simp add: holder_def)

lemma holder_eq:
  "distinct (all_cards_of cards) \<Longrightarrow> (p, h) \<in> set cards \<Longrightarrow> v \<in> set h \<Longrightarrow>
   holder cards v = p"
proof (induction cards)
  case Nil
  then show ?case by simp
next
  case (Cons ph rest)
  show ?case
  proof (cases "ph = (p, h)")
    case True
    with Cons.prems show ?thesis by (simp add: holder_Cons)
  next
    case False
    with Cons.prems have mem: "(p, h) \<in> set rest" by simp
    from Cons.prems(1) have d: "distinct (all_cards_of rest)"
      and disj: "set (snd ph) \<inter> set (all_cards_of rest) = {}"
      by (simp_all add: all_cards_of_def)
    from mem Cons.prems(3) have "v \<in> set (all_cards_of rest)"
      by (force simp: all_cards_of_def)
    with disj have "v \<notin> set (snd ph)" by blast
    with Cons.IH[OF d mem Cons.prems(3)] show ?thesis by (simp add: holder_Cons)
  qed
qed

lemma card_has_hand:
  assumes "v \<in> set (all_cards_of cards)"
  shows "\<exists>p h. (p, h) \<in> set cards \<and> v \<in> set h"
proof -
  from assms obtain ph where "ph \<in> set cards" "v \<in> set (snd ph)"
    by (auto simp: all_cards_of_def)
  then have "(fst ph, snd ph) \<in> set cards \<and> v \<in> set (snd ph)" by simp
  then show ?thesis by blast
qed

lemma hand_distinct:
  "distinct (all_cards_of cards) \<Longrightarrow> (p, h) \<in> set cards \<Longrightarrow> distinct h"
  by (induction cards) (auto simp: all_cards_of_def)

lemma hand_subset:
  "(p, h) \<in> set cards \<Longrightarrow> set h \<subseteq> set (all_cards_of cards)"
  by (force simp: all_cards_of_def)

lemma holder_iff:
  assumes keys: "distinct (map fst cards)" and vals: "distinct (all_cards_of cards)"
    and ph: "(p, h) \<in> set cards" and v: "v \<in> set (all_cards_of cards)"
  shows "holder cards v = p \<longleftrightarrow> v \<in> set h"
proof
  assume "v \<in> set h"
  with vals ph show "holder cards v = p" by (rule holder_eq)
next
  assume hp: "holder cards v = p"
  from card_has_hand[OF v] obtain q h' where q: "(q, h') \<in> set cards" "v \<in> set h'" by blast
  with vals have "holder cards v = q" by (intro holder_eq)
  with hp have "q = p" by simp
  with q(1) have "(p, h') \<in> set cards" by simp
  with keys have "h' = h" using ph by (rule eq_key_imp_eq_value)
  with q(2) show "v \<in> set h" by simp
qed

lemma sorted_hand:
  assumes vals: "distinct (all_cards_of cards)" and ph: "(p, h) \<in> set cards"
  shows "filter (\<lambda>v. v \<in> set h) (sort (all_cards_of cards)) = sort h"
proof (rule sorted_distinct_set_unique)
  show "sorted (filter (\<lambda>v. v \<in> set h) (sort (all_cards_of cards)))"
    by (simp add: sorted_wrt_filter)
  show "distinct (filter (\<lambda>v. v \<in> set h) (sort (all_cards_of cards)))"
    using vals by simp
  show "sorted (sort h)" by simp
  show "distinct (sort h)" using hand_distinct[OF vals ph] by simp
  show "set (filter (\<lambda>v. v \<in> set h) (sort (all_cards_of cards))) = set (sort h)"
    using hand_subset[OF ph] by auto
qed

lemma nth_filter_prefix:
  assumes "i < length xs" "P (xs ! i)"
  shows "filter P xs ! length (filter P (take i xs)) = xs ! i"
proof -
  have "xs = take i xs @ xs ! i # drop (Suc i) xs"
    using assms(1) by (simp add: id_take_nth_drop)
  then have "filter P xs = filter P (take i xs) @ xs ! i # filter P (drop (Suc i) xs)"
    using assms(2) by (metis filter.simps(2) filter_append)
  then show ?thesis by (simp add: nth_append)
qed

lemma count_holder:
  assumes keys: "distinct (map fst cards)" and vals: "distinct (all_cards_of cards)"
    and ph: "(p, h) \<in> set cards" and sub: "set ys \<subseteq> set (all_cards_of cards)"
  shows "count_list (map (holder cards) ys) p = length (filter (\<lambda>v. v \<in> set h) ys)"
proof -
  have "filter (\<lambda>v. holder cards v = p) ys = filter (\<lambda>v. v \<in> set h) ys"
    using sub holder_iff[OF keys vals ph] by (intro filter_cong) auto
  then show ?thesis
    by (simp add: count_list_filter filter_map comp_def)
qed

lemma walk_resolves:
  assumes keys: "distinct (map fst cards)" and vals: "distinct (all_cards_of cards)"
  shows "resolve cards (walk_selections cards) = Inr (sort (all_cards_of cards))"
proof -
  let ?xs = "sort (all_cards_of cards)"
  let ?sels = "walk_selections cards"
  have len: "length ?sels = length ?xs" by (simp add: walk_selections_def)
  have setxs: "set ?xs = set (all_cards_of cards)" by simp
  have named: "\<forall>p \<in> set ?sels. \<exists>h. map_of cards p = Some h \<and> count_list ?sels p \<le> length h"
  proof
    fix p assume "p \<in> set ?sels"
    then obtain v where v: "v \<in> set (all_cards_of cards)" and p: "p = holder cards v"
      by (auto simp: walk_selections_def)
    from card_has_hand[OF v] obtain q h where q: "(q, h) \<in> set cards" "v \<in> set h" by blast
    with vals p have pq: "p = q" by (simp add: holder_eq)
    have "map_of cards p = Some h" using keys q(1) pq by simp
    moreover have "count_list ?sels p = length (sort h)"
      unfolding walk_selections_def pq
      using count_holder[OF keys vals q(1), of ?xs] sorted_hand[OF vals q(1)] by simp
    ultimately show "\<exists>h. map_of cards p = Some h \<and> count_list ?sels p \<le> length h" by simp
  qed
  have "map (spec_card cards ?sels) [0 ..< length ?sels] = ?xs"
  proof (rule nth_equalityI)
    show "length (map (spec_card cards ?sels) [0 ..< length ?sels]) = length ?xs"
      by (simp add: len)
  next
    fix i assume "i < length (map (spec_card cards ?sels) [0 ..< length ?sels])"
    then have i: "i < length ?xs" by (simp add: len)
    then have v: "?xs ! i \<in> set (all_cards_of cards)" using setxs nth_mem by blast
    from card_has_hand[OF v] obtain q h where q: "(q, h) \<in> set cards" "?xs ! i \<in> set h"
      by blast
    have sel: "?sels ! i = q"
      using i holder_eq[OF vals q] by (simp add: walk_selections_def)
    have hand: "map_of cards q = Some h" using keys q(1) by simp
    have "set (take i ?xs) \<subseteq> set (all_cards_of cards)"
      using set_take_subset[of i ?xs] by simp
    from count_holder[OF keys vals q(1) this]
    have cnt: "count_list (take i ?sels) q = length (filter (\<lambda>v. v \<in> set h) (take i ?xs))"
      by (simp add: walk_selections_def take_map)
    have "spec_card cards ?sels i = sort h ! length (filter (\<lambda>v. v \<in> set h) (take i ?xs))"
      by (simp add: spec_card_def Let_def sel hand cnt)
    also have "\<dots> = ?xs ! i"
      unfolding sorted_hand[OF vals q(1), symmetric]
      using i q(2) by (rule nth_filter_prefix)
    finally show "map (spec_card cards ?sels) [0 ..< length ?sels] ! i = ?xs ! i"
      using i by (simp add: len)
  qed
  with resolve_loop_spec[OF named, of "[]" ?sels] show ?thesis
    by (simp add: resolve_def)
qed

text \<open>
  What a distribution to players with different names stores is such a mapping: its keys
  differ, its cards differ, and there are \<open>p * r\<close> of them.
\<close>

lemma distributed_hands_wf:
  assumes names: "distinct names"
    and fits: "int (length names * r) \<le> hi - lo + 1"
    and sample: "is_sample [lo..hi] (length names * r) (sample [lo..hi] (length names * r))"
    and hs: "distribute_cards sample names r (lo, hi) = Inr hs"
  shows "distinct (map fst hs)" and "distinct (all_cards_of hs)"
    and "length (all_cards_of hs) = length names * r"
proof -
  let ?sel = "sample [lo..hi] (length names * r)"
  from sample have len: "length ?sel = length names * r" and dist: "distinct ?sel"
    by (simp_all add: is_sample_def)
  from hs distribute_cards_distinct[OF names fits, of sample]
  have eq: "hs = zip names (map (\<lambda>j. slice ?sel (j * r) ((j + 1) * r)) [0 ..< length names])"
    by simp
  show "distinct (map fst hs)" using names by (simp add: eq)
  have "map snd hs = map (\<lambda>j. slice ?sel (j * r) ((j + 1) * r)) [0 ..< length names]"
    by (simp add: eq)
  then have "all_cards_of hs = take (length names * r) ?sel"
    unfolding all_cards_of_def by (simp only: concat_blocks)
  with len have "all_cards_of hs = ?sel" by simp
  with dist len show "distinct (all_cards_of hs)" "length (all_cards_of hs) = length names * r"
    by simp_all
qed

lemma round_two_fields:
  "status round_two = Playing" "current_round round_two = 2"
  "players round_two = [''A'', ''B'']"
  "cards_per_round round_two = [2 \<mapsto> [(''A'', [30, 10]), (''B'', [20, 40])]]"
  by (simp_all add: round_two_def create_new_game_def)

lemma round_two_walk:
  "sort (all_cards_of [(''A'', [30, 10]), (''B'', [20, 40])]) = [10, 20, 30, 40]"
  "walk_selections [(''A'', [30, 10]), (''B'', [20, 40])] = [''A'', ''B'', ''A'', ''B'']"
  by (simp_all add: walk_selections_def all_cards_of_def holder_def)

text \<open>
  Claim C9.  For a round's hand mapping (a dict, so its keys differ) whose cards are all
  different, let the selections name, for each value of the correct order in turn, the
  player whose hand contains it.  Then the resolver returns exactly the correct order,
  the ascending sort of all hands; and when the mapping holds \<open>p * r\<close> cards, as after a
  distribution, submitting these selections in status playing records a result with
  \<open>played_order = correct_order\<close> and \<open>is_correct\<close> true.
\<close>

theorem walk_round_trip:
  assumes keys: "distinct (map fst cards)"
    and vals: "distinct (all_cards_of cards)"
    and playing: "status g = Playing"
    and dealt: "cards_per_round g (current_round g) = Some cards"
    and count: "length (all_cards_of cards) = length (players g) * current_round g"
  shows "resolve cards (walk_selections cards) = Inr (sort (all_cards_of cards))
     \<and> show_admin_view sample now (Verify_submitted (walk_selections cards)) code g games sess =
         Inr \<lparr>saved = Some (games(code \<mapsto> g\<lparr>results := (results g)(current_round g \<mapsto>
                  \<lparr>played_order = sort (all_cards_of cards),
                   correct_order = sort (all_cards_of cards),
                   is_correct = True, timestamp = now\<rparr>)\<rparr>)),
              session = (case sess of
                           None \<Rightarrow> Some (new_reveal (current_round g) (sort (all_cards_of cards))
                                     (sort (all_cards_of cards)) True)
                         | Some rv \<Rightarrow> Some rv),
              shown = []\<rparr>"
proof -
  have r: "resolve cards (walk_selections cards) = Inr (sort (all_cards_of cards))"
    using keys vals by (rule walk_resolves)
  have len: "length (sort (all_cards_of cards)) = length (players g) * current_round g"
    using count by simp
  from verify_submitted_ok[OF dealt r len, of now code games sess] playing
  have "show_admin_view sample now (Verify_submitted (walk_selections cards)) code g games sess =
         Inr \<lparr>saved = Some (games(code \<mapsto> g\<lparr>results := (results g)(current_round g \<mapsto>
                  \<lparr>played_order = sort (all_cards_of cards),
                   correct_order = sort (all_cards_of cards),
                   is_correct = True, timestamp = now\<rparr>)\<rparr>)),
              session = (case sess of
                           None \<Rightarrow> Some (new_reveal (current_round g) (sort (all_cards_of cards))
                                     (sort (all_cards_of cards)) True)
                         | Some rv \<Rightarrow> Some rv),
              shown = []\<rparr>"
    by (simp add: show_admin_view_def split: option.split)
  with r show ?thesis by (intro conjI)
qed

theorem walk_round_trip_witness:
  "distinct (map fst [(''A'', [30, 10 :: int]), (''B'', [20, 40])])
   \<and> distinct (all_cards_of [(''A'', [30, 10]), (''B'', [20, 40])])
   \<and> status round_two = Playing
   \<and> cards_per_round round_two (current_round round_two) =
       Some [(''A'', [30, 10]), (''B'', [20, 40])]
   \<and> length (all_cards_of [(''A'', [30, 10]), (''B'', [20, 40])]) =
       length (players round_two) * current_round round_two
   \<and> resolve [(''A'', [30, 10]), (''B'', [20, 40])] [''A'', ''B'', ''A'', ''B''] =
       Inr [10, 20, 30, 40]
   \<and> show_admin_view take_sample ''t3'' (Verify_submitted [''A'', ''B'', ''A'', ''B''])
         ''ROOM01'' round_two example_store None =
       Inr \<lparr>saved = Some (example_store(''ROOM01'' \<mapsto> round_two\<lparr>results :=
                (results round_two)(current_round round_two \<mapsto>
                  \<lparr>played_order = [10, 20, 30, 40], correct_order = [10, 20, 30, 40],
                   is_correct = True, timestamp = ''t3''\<rparr>)\<rparr>)),
            session = Some (new_reveal (current_round round_two) [10, 20, 30, 40]
                              [10, 20, 30, 40] True),
            shown = []\<rparr>"
proof -
  let ?cards = "[(''A'', [30, 10 :: int]), (''B'', [20, 40])]"
  have h1: "distinct (map fst ?cards)" by simp
  have h2: "distinct (all_cards_of ?cards)" by (simp add: all_cards_of_def)
  have h3: "status round_two = Playing" by (rule round_two_fields)
  have h4: "cards_per_round round_two (current_round round_two) = Some ?cards"
    by (simp add: round_two_fields)
  have h5: "length (all_cards_of ?cards) = length (players round_two) * current_round round_two"
    by (simp add: round_two_fields all_cards_of_def)
  note inst = walk_round_trip[OF h1 h2 h3 h4 h5, of take_sample "''t3''" "''ROOM01''"
      example_store None, unfolded round_two_walk]
  from inst have a: "resolve ?cards [''A'', ''B'', ''A'', ''B''] = Inr [10, 20, 30, 40]"
    by (rule conjunct1)
  from inst have b: "show_admin_view take_sample ''t3'' (Verify_submitted [''A'', ''B'', ''A'', ''B''])
         ''ROOM01'' round_two example_store None =
       Inr \<lparr>saved = Some (example_store(''ROOM01'' \<mapsto> round_two\<lparr>results :=
                (results round_two)(current_round round_two \<mapsto>
                  \<lparr>played_order = [10, 20, 30, 40], correct_order = [10, 20, 30, 40],
                   is_correct = True, timestamp = ''t3''\<rparr>)\<rparr>)),
            session = Some (new_reveal (current_round round_two) [10, 20, 30, 40]
                              [10, 20, 30, 40] True),
            shown = []\<rparr>"
    by (simp add: round_two_fields)
  from h1 h2 h3 h4 h5 a b show ?thesis by (intro conjI)
qed

end
